theory Spec2Isabelle
  imports Main "HOL-Library.Product_Lexorder"
begin

section \<open>Data model of minesweeper.py\<close>

text \<open>
  A cell is a Python tuple \<open>(i, j)\<close> of unbounded integers. A \<open>Sentence\<close> holds a
  set of cells and an integer count; nothing in the source keeps the count non-negative,
  so it is an \<open>int\<close>.
\<close>

type_synonym cell = "int \<times> int"

record sentence =
  cells :: "cell set"
  count :: int

text \<open>
  \<open>MinesweeperAI\<close>: the knowledge is a Python list of \<open>Sentence\<close> objects, each
  appended once, so the list of their current values is the whole store.
\<close>

record ai =
  height :: int
  width :: int
  moves_made :: "cell set"
  mines :: "cell set"
  safes :: "cell set"
  knowledge :: "sentence list"

section \<open>Sentence\<close>

text \<open>\<open>Sentence.known_mines\<close> and \<open>Sentence.known_safes\<close>: the cells, or \<open>None\<close>.\<close>

definition known_mines :: "sentence \<Rightarrow> cell set option" where
  "known_mines s = (if int (card (cells s)) = count s then Some (cells s) else None)"

definition known_safes :: "sentence \<Rightarrow> cell set option" where
  "known_safes s = (if count s = 0 then Some (cells s) else None)"

text \<open>
  \<open>Sentence.mark_mine\<close>: the loop copies every item different from the cell and
  decrements the count at the item equal to it; a set holds at most one such item.
\<close>

definition Sentence_mark_mine :: "sentence \<Rightarrow> cell \<Rightarrow> sentence" where
  "Sentence_mark_mine s c =
     \<lparr>cells = Set.filter (\<lambda>item. item \<noteq> c) (cells s),
      count = (if c \<in> cells s then count s - 1 else count s)\<rparr>"

definition Sentence_mark_safe :: "sentence \<Rightarrow> cell \<Rightarrow> sentence" where
  "Sentence_mark_safe s c =
     \<lparr>cells = Set.filter (\<lambda>item. item \<noteq> c) (cells s), count = count s\<rparr>"

section \<open>MinesweeperAI\<close>

definition init :: "int \<Rightarrow> int \<Rightarrow> ai" where
  "init h w = \<lparr>height = h, width = w, moves_made = {}, mines = {}, safes = {}, knowledge = []\<rparr>"

definition mark_mine :: "ai \<Rightarrow> cell \<Rightarrow> ai" where
  "mark_mine kb c =
     kb\<lparr>mines := insert c (mines kb),
        knowledge := map (\<lambda>sentence. Sentence_mark_mine sentence c) (knowledge kb)\<rparr>"

definition mark_safe :: "ai \<Rightarrow> cell \<Rightarrow> ai" where
  "mark_safe kb c =
     kb\<lparr>safes := insert c (safes kb),
        knowledge := map (\<lambda>sentence. Sentence_mark_safe sentence c) (knowledge kb)\<rparr>"

text \<open>
  \<open>for x in some_set: self.mark_safe(x)\<close>. Python fixes no iteration order for a set;
  the model visits the cells in increasing order, and \<open>fold_mark_safe_order\<close> and
  \<open>fold_mark_mine_order\<close> below show that the order does not matter. (A Python set is
  finite; on an infinite set of cells the list, and so the loop, is empty.)
\<close>

definition for_each :: "(ai \<Rightarrow> cell \<Rightarrow> ai) \<Rightarrow> cell set \<Rightarrow> ai \<Rightarrow> ai" where
  "for_each f S kb = fold (\<lambda>c k. f k c) (sorted_list_of_set S) kb"

text \<open>\<open>get_enclosed_cells\<close>: the body of the inner loop, then the two nested ranges.\<close>

definition enclosed_step :: "ai \<Rightarrow> cell \<Rightarrow> cell \<Rightarrow> cell list \<times> int \<Rightarrow> cell list \<times> int" where
  "enclosed_step kb cell rc acc =
     (case rc of (row, col) \<Rightarrow> case acc of (enclosed_cells, cnt) \<Rightarrow>
        (if 0 \<le> row \<and> row < height kb \<and> 0 \<le> col \<and> col < width kb
            \<and> (row, col) \<noteq> cell \<and> (row, col) \<notin> safes kb \<and> (row, col) \<notin> mines kb
         then enclosed_cells @ [(row, col)] else enclosed_cells,
         if (row, col) \<in> mines kb then cnt - 1 else cnt))"

definition block :: "cell \<Rightarrow> cell list" where
  "block cell = (case cell of (i, j) \<Rightarrow> List.product [i - 1 .. i + 1] [j - 1 .. j + 1])"

definition get_enclosed_cells :: "ai \<Rightarrow> cell \<Rightarrow> int \<Rightarrow> cell list \<times> int" where
  "get_enclosed_cells kb cell cnt = fold (enclosed_step kb cell) (block cell) ([], cnt)"

text \<open>\<open>remove_duplicates\<close>: the first of equal sentences is the one kept.\<close>

definition remove_duplicates :: "ai \<Rightarrow> ai" where
  "remove_duplicates kb =
     kb\<lparr>knowledge :=
          fold (\<lambda>s unique_knowledge.
                  if s \<notin> set unique_knowledge then unique_knowledge @ [s] else unique_knowledge)
               (knowledge kb) []\<rparr>"

text \<open>
  Python's truth value of what \<open>known_mines\<close> and \<open>known_safes\<close> return: \<open>None\<close> and the
  empty set are both false. \<open>iter\<close> is the set a \<open>for\<close> loop runs over; the source
  iterates only over a result it has found true, so never over \<open>None\<close>.
\<close>

definition truthy :: "cell set option \<Rightarrow> bool" where
  "truthy r = (case r of None \<Rightarrow> False | Some S \<Rightarrow> S \<noteq> {})"

definition iter :: "cell set option \<Rightarrow> cell set" where
  "iter r = (case r of None \<Rightarrow> {} | Some S \<Rightarrow> S)"

text \<open>
  \<open>remove_sures\<close>: \<open>final_knowledge\<close> holds references to the sentence objects of
  \<open>self.knowledge\<close>, here their indices; \<open>self.knowledge\<close> itself stays whole during the
  loop, and the marks reach every sentence of it, kept or not. The loop iterates over
  the set object \<open>s.cells\<close> as it was when \<open>known_mines\<close> returned it
  (\<open>Sentence.mark_mine\<close> rebinds \<open>cells\<close> to a new set).
\<close>

definition remove_sures_step :: "nat \<Rightarrow> ai \<times> nat list \<Rightarrow> ai \<times> nat list" where
  "remove_sures_step i st =
     (case st of (kb, final_knowledge) \<Rightarrow>
        let s = knowledge kb ! i;
            final_knowledge = final_knowledge @ [i]
        in if truthy (known_mines s)
           then (for_each mark_mine (iter (known_mines s)) kb, butlast final_knowledge)
           else if truthy (known_safes s)
           then (for_each mark_safe (iter (known_safes s)) kb, butlast final_knowledge)
           else (kb, final_knowledge))"

definition remove_sures_loop :: "ai \<Rightarrow> ai \<times> nat list" where
  "remove_sures_loop kb = fold remove_sures_step [0 ..< length (knowledge kb)] (kb, [])"

definition remove_sures :: "ai \<Rightarrow> ai" where
  "remove_sures kb =
     (case remove_sures_loop kb of (kb', final_knowledge) \<Rightarrow>
        kb'\<lparr>knowledge := map (\<lambda>i. knowledge kb' ! i) final_knowledge\<rparr>)"

text \<open>
  \<open>add_knowledge\<close>. In the loop, \<open>sentence\<close> is the object appended last, read afresh
  at each iteration since the marks of earlier iterations change it too.
\<close>

definition probe :: "ai \<Rightarrow> cell \<Rightarrow> ai" where
  "probe kb cell = (let kb1 = mark_safe kb cell in kb1\<lparr>moves_made := insert cell (moves_made kb1)\<rparr>)"

definition new_sentence :: "ai \<Rightarrow> cell \<Rightarrow> int \<Rightarrow> sentence" where
  "new_sentence kb cell cnt =
     (case get_enclosed_cells kb cell cnt of (neighbors, cnt') \<Rightarrow>
        \<lparr>cells = set neighbors, count = cnt'\<rparr>)"

definition conclusion_step :: "nat \<Rightarrow> ai \<Rightarrow> ai" where
  "conclusion_step i kb =
     (let s = knowledge kb ! i; sentence = last (knowledge kb)
      in if s = sentence then kb
         else if cells sentence \<subseteq> cells s then
           (let set_diff = cells s - cells sentence
            in if count s = count sentence then for_each mark_safe set_diff kb
               else if int (card set_diff) = count s - count sentence
               then for_each mark_mine set_diff kb
               else kb)
         else if cells s \<subseteq> cells sentence then
           (let set_diff = cells sentence - cells s
            in if count s = count sentence then for_each mark_safe set_diff kb
               else if int (card set_diff) = count sentence - count s
               then for_each mark_mine set_diff kb
               else kb)
         else kb)"

definition conclusion :: "ai \<Rightarrow> ai" where
  "conclusion kb = fold conclusion_step [0 ..< length (knowledge kb)] kb"

definition add_knowledge :: "ai \<Rightarrow> cell \<Rightarrow> int \<Rightarrow> ai" where
  "add_knowledge kb cell cnt =
     (let kb2 = probe kb cell;
          sentence = new_sentence kb2 cell cnt;
          kb3 = kb2\<lparr>knowledge := knowledge kb2 @ [sentence]\<rparr>
      in remove_sures (remove_duplicates (conclusion kb3)))"

text \<open>A sequence of \<open>add_knowledge\<close> calls, each a probed cell with its count.\<close>

definition updates :: "ai \<Rightarrow> (cell \<times> int) list \<Rightarrow> ai" where
  "updates kb ps = fold (\<lambda>p k. add_knowledge k (fst p) (snd p)) ps kb"


text \<open>
  \<open>make_safe_move\<close>. \<open>set.pop()\<close> removes and returns an arbitrary element of a
  non-empty set, so the call is a relation between the state and the pair of the
  returned value and the state afterwards. The set popped is the fresh set
  \<open>self.safes - self.moves_made\<close>, a local of the call.
\<close>

inductive set_pop :: "cell set \<Rightarrow> cell \<times> cell set \<Rightarrow> bool" where
  set_pop: "x \<in> S \<Longrightarrow> set_pop S (x, S - {x})"

inductive make_safe_move :: "ai \<Rightarrow> cell option \<times> ai \<Rightarrow> bool" where
  no_move: "safes kb - moves_made kb = {} \<Longrightarrow> make_safe_move kb (None, kb)"
| move: "safes kb - moves_made kb \<noteq> {} \<Longrightarrow> set_pop (safes kb - moves_made kb) (move, safe_cells)
         \<Longrightarrow> make_safe_move kb (Some move, kb)"

code_pred set_pop .

code_pred make_safe_move .

section \<open>Minesweeper\<close>

text \<open>
  \<open>Minesweeper.nearby_mines\<close>, the count the board reports for a cell. The board is
  given by the set of the cells whose entry is \<open>True\<close>.
\<close>

definition nearby_mines :: "cell set \<Rightarrow> int \<Rightarrow> int \<Rightarrow> cell \<Rightarrow> int" where
  "nearby_mines board h w cell =
     fold (\<lambda>ij cnt.
             if ij = cell then cnt
             else if 0 \<le> fst ij \<and> fst ij < h \<and> 0 \<le> snd ij \<and> snd ij < w
             then (if ij \<in> board then cnt + 1 else cnt)
             else cnt)
          (block cell) 0"

section \<open>Notions used in the statements\<close>

text \<open>A position of the grid, and the positions next to a cell (the cell itself excluded).\<close>

definition in_grid :: "ai \<Rightarrow> cell \<Rightarrow> bool" where
  "in_grid kb c = (0 \<le> fst c \<and> fst c < height kb \<and> 0 \<le> snd c \<and> snd c < width kb)"

definition adjacent :: "cell \<Rightarrow> cell \<Rightarrow> bool" where
  "adjacent cell n = (n \<noteq> cell \<and> \<bar>fst n - fst cell\<bar> \<le> 1 \<and> \<bar>snd n - snd cell\<bar> \<le> 1)"

text \<open>
  The state of \<open>add_knowledge\<close> once the new sentence is appended (source lines
  199 to 206), before the conclusion loop, and the state on which \<open>remove_sures\<close> starts.
\<close>

definition with_sentence :: "ai \<Rightarrow> cell \<Rightarrow> int \<Rightarrow> ai" where
  "with_sentence kb cell cnt =
     (probe kb cell)\<lparr>knowledge :=
        knowledge (probe kb cell) @ [new_sentence (probe kb cell) cell cnt]\<rparr>"

definition before_remove_sures :: "ai \<Rightarrow> cell \<Rightarrow> int \<Rightarrow> ai" where
  "before_remove_sures kb cell cnt = remove_duplicates (conclusion (with_sentence kb cell cnt))"

text \<open>
  What inference may do to a knowledge base: mark cells safe or as mines, and drop
  sentences. Every loop of \<open>add_knowledge\<close> after the new sentence is of this kind.
\<close>

inductive inferred :: "ai \<Rightarrow> ai \<Rightarrow> bool" where
  inferred_refl: "inferred kb kb"
| inferred_safe: "inferred kb kb' \<Longrightarrow> inferred kb (mark_safe kb' c)"
| inferred_mine: "inferred kb kb' \<Longrightarrow> inferred kb (mark_mine kb' c)"
| inferred_drop: "inferred kb kb' \<Longrightarrow> set ks \<subseteq> set (knowledge kb')
                  \<Longrightarrow> inferred kb (kb'\<lparr>knowledge := ks\<rparr>)"

text \<open>Invariants of the knowledge base.\<close>

definition unresolved_inv :: "ai \<Rightarrow> bool" where
  "unresolved_inv kb =
     (\<forall>s \<in> set (knowledge kb). \<forall>c \<in> cells s. c \<notin> mines kb \<and> c \<notin> safes kb)"

definition grid_inv :: "ai \<Rightarrow> bool" where
  "grid_inv kb = (\<forall>s \<in> set (knowledge kb). \<forall>c \<in> cells s. in_grid kb c)"

text \<open>
  Soundness for a placement \<open>H\<close> of the mines: the marked mines are mines of \<open>H\<close> on
  the grid, no safe cell is a mine of \<open>H\<close>, and every sentence counts the mines of
  \<open>H\<close> among its cells.
\<close>

definition sound :: "cell set \<Rightarrow> ai \<Rightarrow> bool" where
  "sound H kb =
     (mines kb \<subseteq> H \<and> mines kb \<subseteq> {c. in_grid kb c} \<and> safes kb \<inter> H = {}
      \<and> (\<forall>s \<in> set (knowledge kb).
            finite (cells s) \<and> cells s \<subseteq> {c. in_grid kb c}
            \<and> count s = int (card (cells s \<inter> H))))"

text \<open>
  The inference pass in the words of the specification, built from the operations
  of the source: subset resolution over every ordered pair of distinct sentences
  (so both directions of every unordered pair), then self-resolution, then
  deduplication. The source has no such pass; it serves to state what running the
  inference steps again does to a state that \<open>add_knowledge\<close> returned.
\<close>

definition spec_resolve_pair :: "nat \<times> nat \<Rightarrow> ai \<Rightarrow> ai" where
  "spec_resolve_pair ij kb =
     (case ij of (i, j) \<Rightarrow>
        let A = knowledge kb ! i; B = knowledge kb ! j
        in if i \<noteq> j \<and> cells B \<subseteq> cells A then
             (let D = cells A - cells B
              in if count A = count B then for_each mark_safe D kb
                 else if int (card D) = count A - count B then for_each mark_mine D kb
                 else kb)
           else kb)"

definition spec_pairwise_resolution :: "ai \<Rightarrow> ai" where
  "spec_pairwise_resolution kb =
     fold spec_resolve_pair
       (List.product [0 ..< length (knowledge kb)] [0 ..< length (knowledge kb)]) kb"

definition spec_inference_pass :: "ai \<Rightarrow> ai" where
  "spec_inference_pass kb = remove_duplicates (remove_sures (spec_pairwise_resolution kb))"


section \<open>Marking cells\<close>

lemma sentence_eta [simp]: "\<lparr>cells = cells s, count = count s\<rparr> = (s::sentence)"
  by (cases s) simp

lemma Sentence_mark_safe_simps [simp]:
  "cells (Sentence_mark_safe s c) = cells s - {c}"
  "count (Sentence_mark_safe s c) = count s"
  by (auto simp: Sentence_mark_safe_def)

lemma Sentence_mark_mine_simps [simp]:
  "cells (Sentence_mark_mine s c) = cells s - {c}"
  "count (Sentence_mark_mine s c) = (if c \<in> cells s then count s - 1 else count s)"
  by (auto simp: Sentence_mark_mine_def)

lemma mark_safe_simps [simp]:
  "safes (mark_safe kb c) = insert c (safes kb)"
  "mines (mark_safe kb c) = mines kb"
  "moves_made (mark_safe kb c) = moves_made kb"
  "height (mark_safe kb c) = height kb"
  "width (mark_safe kb c) = width kb"
  "knowledge (mark_safe kb c) = map (\<lambda>s. Sentence_mark_safe s c) (knowledge kb)"
  by (simp_all add: mark_safe_def)

lemma mark_mine_simps [simp]:
  "mines (mark_mine kb c) = insert c (mines kb)"
  "safes (mark_mine kb c) = safes kb"
  "moves_made (mark_mine kb c) = moves_made kb"
  "height (mark_mine kb c) = height kb"
  "width (mark_mine kb c) = width kb"
  "knowledge (mark_mine kb c) = map (\<lambda>s. Sentence_mark_mine s c) (knowledge kb)"
  by (simp_all add: mark_mine_def)

text \<open>
  Marking the cells of a list one after the other: the result depends on the set of
  the cells only, so the order in which Python iterates over a set does not matter.
\<close>

lemma fold_mark_safe_frame [simp]:
  "safes (fold (\<lambda>c k. mark_safe k c) xs kb) = safes kb \<union> set xs"
  "mines (fold (\<lambda>c k. mark_safe k c) xs kb) = mines kb"
  "moves_made (fold (\<lambda>c k. mark_safe k c) xs kb) = moves_made kb"
  "height (fold (\<lambda>c k. mark_safe k c) xs kb) = height kb"
  "width (fold (\<lambda>c k. mark_safe k c) xs kb) = width kb"
  by (induction xs arbitrary: kb; simp)+

lemma fold_mark_safe_knowledge:
  "knowledge (fold (\<lambda>c k. mark_safe k c) xs kb)
   = map (\<lambda>s. \<lparr>cells = cells s - set xs, count = count s\<rparr>) (knowledge kb)"
proof (induction xs arbitrary: kb)
  case Nil then show ?case by (simp add: map_idI)
next
  case (Cons x xs)
  have "cells s - {x} - set xs = cells s - insert x (set xs)" for s :: sentence by blast
  then show ?case by (simp add: Cons)
qed

lemma fold_mark_mine_frame [simp]:
  "mines (fold (\<lambda>c k. mark_mine k c) xs kb) = mines kb \<union> set xs"
  "safes (fold (\<lambda>c k. mark_mine k c) xs kb) = safes kb"
  "moves_made (fold (\<lambda>c k. mark_mine k c) xs kb) = moves_made kb"
  "height (fold (\<lambda>c k. mark_mine k c) xs kb) = height kb"
  "width (fold (\<lambda>c k. mark_mine k c) xs kb) = width kb"
  by (induction xs arbitrary: kb; simp)+

lemma card_inter_insert:
  assumes "finite B"
  shows "int (card (A \<inter> insert x B))
         = (if x \<in> A then 1 else 0) + int (card ((A - {x}) \<inter> B))"
proof -
  have f: "finite ((A - {x}) \<inter> B)" using assms by simp
  show ?thesis
  proof (cases "x \<in> A")
    case True
    have "A \<inter> insert x B = insert x ((A - {x}) \<inter> B)" using True by blast
    then show ?thesis using f True by simp
  next
    case False
    then have "A \<inter> insert x B = (A - {x}) \<inter> B" by blast
    then show ?thesis using False by simp
  qed
qed

lemma fold_mark_mine_knowledge:
  "knowledge (fold (\<lambda>c k. mark_mine k c) xs kb)
   = map (\<lambda>s. \<lparr>cells = cells s - set xs,
                 count = count s - int (card (cells s \<inter> set xs))\<rparr>)
       (knowledge kb)"
proof (induction xs arbitrary: kb)
  case Nil then show ?case by (simp add: map_idI)
next
  case (Cons x xs)
  have a: "cells s - {x} - set xs = cells s - insert x (set xs)" for s :: sentence by blast
  show ?case by (simp add: Cons a card_inter_insert o_def)
qed

lemma fold_mark_safe_order:
  "set xs = set ys \<Longrightarrow>
     fold (\<lambda>c k. mark_safe k c) xs kb = fold (\<lambda>c k. mark_safe k c) ys (kb :: ai)"
  by (rule ai.equality) (simp_all add: fold_mark_safe_knowledge)

lemma fold_mark_mine_order:
  "set xs = set ys \<Longrightarrow>
     fold (\<lambda>c k. mark_mine k c) xs kb = fold (\<lambda>c k. mark_mine k c) ys (kb :: ai)"
  by (rule ai.equality) (simp_all add: fold_mark_mine_knowledge)

lemma length_for_each [simp]:
  "length (knowledge (for_each mark_safe S kb)) = length (knowledge kb)"
  "length (knowledge (for_each mark_mine S kb)) = length (knowledge kb)"
  by (simp_all add: for_each_def fold_mark_safe_knowledge fold_mark_mine_knowledge)


section \<open>The loops of inference mark cells and drop sentences\<close>

lemma inferred_fold_safe:
  "inferred kb0 kb \<Longrightarrow> inferred kb0 (fold (\<lambda>c k. mark_safe k c) xs kb)"
  by (induction xs arbitrary: kb) (auto intro: inferred_safe)

lemma inferred_fold_mine:
  "inferred kb0 kb \<Longrightarrow> inferred kb0 (fold (\<lambda>c k. mark_mine k c) xs kb)"
  by (induction xs arbitrary: kb) (auto intro: inferred_mine)

lemma inferred_for_each:
  "inferred kb0 kb \<Longrightarrow> inferred kb0 (for_each mark_safe S kb)"
  "inferred kb0 kb \<Longrightarrow> inferred kb0 (for_each mark_mine S kb)"
  by (simp_all add: for_each_def inferred_fold_safe inferred_fold_mine)

lemma inferred_conclusion_step:
  "inferred kb0 kb \<Longrightarrow> inferred kb0 (conclusion_step i kb)"
  by (simp add: conclusion_step_def Let_def inferred_for_each)

lemma inferred_conclusion: "inferred kb0 kb \<Longrightarrow> inferred kb0 (conclusion kb)"
proof -
  have "inferred kb0 kb \<Longrightarrow> inferred kb0 (fold conclusion_step is kb)" for "is"
    by (induction "is" arbitrary: kb) (auto intro: inferred_conclusion_step)
  then show "inferred kb0 kb \<Longrightarrow> inferred kb0 (conclusion kb)"
    by (simp add: conclusion_def)
qed

lemma set_unique_knowledge:
  "set (fold (\<lambda>s u. if s \<notin> set u then u @ [s] else u) xs acc) = set acc \<union> set xs"
  by (induction xs arbitrary: acc) auto

lemma inferred_remove_duplicates:
  "inferred kb0 kb \<Longrightarrow> inferred kb0 (remove_duplicates kb)"
  unfolding remove_duplicates_def
  by (rule inferred_drop) (simp_all add: set_unique_knowledge)

lemma remove_sures_step_props:
  assumes "remove_sures_step i (kb, f) = (kb', f')"
  shows "length (knowledge kb') = length (knowledge kb)"
    and "set f' \<subseteq> insert i (set f)"
    and "inferred kb0 kb \<Longrightarrow> inferred kb0 kb'"
  using assms
  by (auto simp: remove_sures_step_def Let_def inferred_for_each split: if_splits)

lemma remove_sures_fold_props:
  "fold remove_sures_step is (kb, f) = (kb', f') \<Longrightarrow>
     length (knowledge kb') = length (knowledge kb)
     \<and> set f' \<subseteq> set is \<union> set f
     \<and> (inferred kb0 kb \<longrightarrow> inferred kb0 kb')"
proof (induction "is" arbitrary: kb f)
  case Nil
  then show ?case by simp
next
  case (Cons i "is")
  obtain kb1 f1 where s: "remove_sures_step i (kb, f) = (kb1, f1)"
    by (cases "remove_sures_step i (kb, f)")
  note p = remove_sures_step_props[OF s]
  have "fold remove_sures_step is (kb1, f1) = (kb', f')" using Cons.prems s by simp
  from Cons.IH[OF this] show ?case using p by auto
qed

lemma inferred_remove_sures:
  assumes "inferred kb0 kb" shows "inferred kb0 (remove_sures kb)"
proof -
  obtain kb' f' where l: "remove_sures_loop kb = (kb', f')" by (cases "remove_sures_loop kb")
  then have fo: "fold remove_sures_step [0 ..< length (knowledge kb)] (kb, []) = (kb', f')"
    by (simp add: remove_sures_loop_def)
  note p = remove_sures_fold_props[OF fo, of kb0]
  have "set (map (\<lambda>i. knowledge kb' ! i) f') \<subseteq> set (knowledge kb')"
    using p by auto
  moreover have "inferred kb0 kb'" using p assms by simp
  ultimately have "inferred kb0 (kb'\<lparr>knowledge := map (\<lambda>i. knowledge kb' ! i) f'\<rparr>)"
    by (rule inferred_drop[rotated])
  then show ?thesis by (simp add: remove_sures_def l)
qed

lemma inferred_mono:
  "inferred kb kb' \<Longrightarrow>
     mines kb \<subseteq> mines kb' \<and> safes kb \<subseteq> safes kb' \<and> moves_made kb' = moves_made kb
     \<and> height kb' = height kb \<and> width kb' = width kb"
  by (induction rule: inferred.induct) auto

lemma inferred_unresolved_inv:
  "inferred kb kb' \<Longrightarrow> unresolved_inv kb \<Longrightarrow> unresolved_inv kb'"
  by (induction rule: inferred.induct) (auto simp: unresolved_inv_def)

lemma inferred_grid_inv:
  "inferred kb kb' \<Longrightarrow> grid_inv kb \<Longrightarrow> grid_inv kb'"
  by (induction rule: inferred.induct) (auto simp: grid_inv_def in_grid_def)

section \<open>The new sentence and the update\<close>

lemma fold_enclosed_step:
  "fold (enclosed_step kb cell) xs (acc, n) =
     (acc @ filter (\<lambda>rc. in_grid kb rc \<and> rc \<noteq> cell \<and> rc \<notin> safes kb \<and> rc \<notin> mines kb) xs,
      n - int (length (filter (\<lambda>rc. rc \<in> mines kb) xs)))"
  by (induction xs arbitrary: acc n) (auto simp: enclosed_step_def in_grid_def)

lemma set_block: "set (block cell) = {n. \<bar>fst n - fst cell\<bar> \<le> 1 \<and> \<bar>snd n - snd cell\<bar> \<le> 1}"
  by (cases cell) (auto simp: block_def)

lemma distinct_block: "distinct (block cell)"
  by (cases cell) (simp add: block_def distinct_product)

lemma new_sentence_cells:
  "cells (new_sentence kb cell cnt)
   = {n. adjacent cell n \<and> in_grid kb n \<and> n \<notin> safes kb \<and> n \<notin> mines kb}"
  by (auto simp: new_sentence_def get_enclosed_cells_def fold_enclosed_step set_block adjacent_def)

lemma new_sentence_count:
  "count (new_sentence kb cell cnt) = cnt - int (card {n \<in> set (block cell). n \<in> mines kb})"
  by (simp add: new_sentence_def get_enclosed_cells_def fold_enclosed_step
      distinct_card[symmetric] distinct_block)

lemma probe_simps [simp]:
  "safes (probe kb c) = insert c (safes kb)"
  "mines (probe kb c) = mines kb"
  "moves_made (probe kb c) = insert c (moves_made kb)"
  "height (probe kb c) = height kb"
  "width (probe kb c) = width kb"
  "knowledge (probe kb c) = map (\<lambda>s. Sentence_mark_safe s c) (knowledge kb)"
  by (simp_all add: probe_def Let_def)

lemma in_grid_probe [simp]: "in_grid (probe kb c) = in_grid kb"
  by (simp add: in_grid_def fun_eq_iff)


lemma add_knowledge_alt:
  "add_knowledge kb cell cnt = remove_sures (remove_duplicates (conclusion (with_sentence kb cell cnt)))"
  by (simp add: add_knowledge_def with_sentence_def Let_def)

lemma inferred_add_knowledge: "inferred (with_sentence kb cell cnt) (add_knowledge kb cell cnt)"
  unfolding add_knowledge_alt
  by (intro inferred_remove_sures inferred_remove_duplicates inferred_conclusion inferred_refl)

lemma with_sentence_simps [simp]:
  "safes (with_sentence kb c n) = insert c (safes kb)"
  "mines (with_sentence kb c n) = mines kb"
  "moves_made (with_sentence kb c n) = insert c (moves_made kb)"
  "height (with_sentence kb c n) = height kb"
  "width (with_sentence kb c n) = width kb"
  "knowledge (with_sentence kb c n)
     = map (\<lambda>s. Sentence_mark_safe s c) (knowledge kb) @ [new_sentence (probe kb c) c n]"
  by (simp_all add: with_sentence_def)

lemma add_knowledge_mono:
  "mines kb \<subseteq> mines (add_knowledge kb cell cnt)
   \<and> safes kb \<subseteq> safes (add_knowledge kb cell cnt)
   \<and> moves_made kb \<subseteq> moves_made (add_knowledge kb cell cnt)"
  using inferred_mono[OF inferred_add_knowledge[of kb cell cnt]] by auto

lemma add_knowledge_dims [simp]:
  "height (add_knowledge kb cell cnt) = height kb" "width (add_knowledge kb cell cnt) = width kb"
  using inferred_mono[OF inferred_add_knowledge[of kb cell cnt]] by auto

lemma updates_append: "updates kb (ps @ qs) = updates (updates kb ps) qs"
  by (simp add: updates_def)

lemma updates_mono:
  "mines kb \<subseteq> mines (updates kb qs) \<and> safes kb \<subseteq> safes (updates kb qs)
   \<and> moves_made kb \<subseteq> moves_made (updates kb qs)"
proof (induction qs arbitrary: kb)
  case Nil then show ?case by (simp add: updates_def)
next
  case (Cons q qs)
  have "updates kb (q # qs) = updates (add_knowledge kb (fst q) (snd q)) qs"
    by (simp add: updates_def)
  then show ?case
    using Cons[of "add_knowledge kb (fst q) (snd q)"] add_knowledge_mono[of kb "fst q" "snd q"]
    by auto
qed


lemma unresolved_inv_with_sentence:
  "unresolved_inv kb \<Longrightarrow> unresolved_inv (with_sentence kb cell cnt)"
  by (auto simp: unresolved_inv_def new_sentence_cells)

lemma in_grid_with_sentence [simp]: "in_grid (with_sentence kb cell cnt) = in_grid kb"
  by (simp add: in_grid_def fun_eq_iff)

lemma grid_inv_with_sentence:
  "grid_inv kb \<Longrightarrow> grid_inv (with_sentence kb cell cnt)"
  unfolding grid_inv_def in_grid_with_sentence by (auto simp: new_sentence_cells)

lemma unresolved_inv_add_knowledge:
  "unresolved_inv kb \<Longrightarrow> unresolved_inv (add_knowledge kb cell cnt)"
  using inferred_unresolved_inv[OF inferred_add_knowledge] unresolved_inv_with_sentence by blast

lemma grid_inv_add_knowledge:
  "grid_inv kb \<Longrightarrow> grid_inv (add_knowledge kb cell cnt)"
  using inferred_grid_inv[OF inferred_add_knowledge] grid_inv_with_sentence by blast

lemma unresolved_inv_updates: "unresolved_inv kb \<Longrightarrow> unresolved_inv (updates kb ps)"
  unfolding updates_def
  by (induction ps arbitrary: kb) (auto intro: unresolved_inv_add_knowledge)

lemma grid_inv_updates: "grid_inv kb \<Longrightarrow> grid_inv (updates kb ps)"
  unfolding updates_def
  by (induction ps arbitrary: kb) (auto intro: grid_inv_add_knowledge)

lemma updates_dims [simp]:
  "height (updates kb ps) = height kb" "width (updates kb ps) = width kb"
  unfolding updates_def
  by (induction ps arbitrary: kb) auto


section \<open>Soundness for a placement of the mines\<close>

lemma in_grid_cong: "height kb' = height kb \<Longrightarrow> width kb' = width kb \<Longrightarrow> in_grid kb' = in_grid kb"
  by (simp add: in_grid_def fun_eq_iff)

lemma set_sorted_list_of_set_subset: "set (sorted_list_of_set S) \<subseteq> S"
  by (cases "finite S") simp_all

lemma card_mines_split:
  assumes "finite A" "X \<subseteq> H"
  shows "int (card (A \<inter> H)) - int (card (A \<inter> X)) = int (card ((A - X) \<inter> H))"
proof -
  have "A \<inter> H = (A \<inter> X) \<union> ((A - X) \<inter> H)" using assms(2) by blast
  moreover have "(A \<inter> X) \<inter> ((A - X) \<inter> H) = {}" by blast
  ultimately have "card (A \<inter> H) = card (A \<inter> X) + card ((A - X) \<inter> H)"
    using assms(1) by (metis card_Un_disjoint finite_Int finite_Diff)
  then show ?thesis by simp
qed

lemma card_diff_mines:
  assumes "finite A" "B \<subseteq> A"
  shows "int (card ((A - B) \<inter> H)) = int (card (A \<inter> H)) - int (card (B \<inter> H))"
proof -
  have "A \<inter> H = (B \<inter> H) \<union> ((A - B) \<inter> H)" using assms(2) by blast
  moreover have "(B \<inter> H) \<inter> ((A - B) \<inter> H) = {}" by blast
  moreover have "finite (B \<inter> H)" using assms by (meson finite_Int finite_subset)
  ultimately have "card (A \<inter> H) = card (B \<inter> H) + card ((A - B) \<inter> H)"
    using assms(1) by (metis card_Un_disjoint finite_Int finite_Diff)
  then show ?thesis by simp
qed

lemma all_mines: "finite D \<Longrightarrow> int (card D) = int (card (D \<inter> H)) \<Longrightarrow> D \<subseteq> H"
  by (metis Int_lower1 card_subset_eq inf.absorb_iff1 of_nat_eq_iff)

lemma no_mines: "finite D \<Longrightarrow> int (card (D \<inter> H)) = 0 \<Longrightarrow> D \<inter> H = {}"
  by simp

lemma sound_fold_safe:
  assumes "sound H kb" "set xs \<inter> H = {}"
  shows "sound H (fold (\<lambda>c k. mark_safe k c) xs kb)"
proof -
  have g: "in_grid (fold (\<lambda>c k. mark_safe k c) xs kb) = in_grid kb"
    by (rule in_grid_cong) simp_all
  have e: "(A - set xs) \<inter> H = A \<inter> H" for A using assms(2) by blast
  show ?thesis
    using assms unfolding sound_def g
    by (auto simp: fold_mark_safe_knowledge e)
qed

lemma sound_fold_mine:
  assumes "sound H kb" "set xs \<subseteq> H" "set xs \<subseteq> {c. in_grid kb c}"
  shows "sound H (fold (\<lambda>c k. mark_mine k c) xs kb)"
proof -
  have g: "in_grid (fold (\<lambda>c k. mark_mine k c) xs kb) = in_grid kb"
    by (rule in_grid_cong) simp_all
  show ?thesis
    using assms unfolding sound_def g
    by (auto simp: fold_mark_mine_knowledge card_mines_split)
qed

lemma sound_for_each_safe:
  "sound H kb \<Longrightarrow> S \<inter> H = {} \<Longrightarrow> sound H (for_each mark_safe S kb)"
  unfolding for_each_def using set_sorted_list_of_set_subset[of S]
  by (intro sound_fold_safe) auto

lemma sound_for_each_mine:
  "sound H kb \<Longrightarrow> S \<subseteq> H \<Longrightarrow> S \<subseteq> {c. in_grid kb c} \<Longrightarrow> sound H (for_each mark_mine S kb)"
  unfolding for_each_def using set_sorted_list_of_set_subset[of S]
  by (intro sound_fold_mine) auto

lemma sound_resolve:
  assumes "sound H kb" "A \<in> set (knowledge kb)" "B \<in> set (knowledge kb)" "cells B \<subseteq> cells A"
  shows "count A = count B \<Longrightarrow> sound H (for_each mark_safe (cells A - cells B) kb)"
    and "int (card (cells A - cells B)) = count A - count B
         \<Longrightarrow> sound H (for_each mark_mine (cells A - cells B) kb)"
proof -
  have fA: "finite (cells A)" and cA: "count A = int (card (cells A \<inter> H))"
    and gA: "cells A \<subseteq> {c. in_grid kb c}"
    and cB: "count B = int (card (cells B \<inter> H))"
    using assms(1,2,3) by (auto simp: sound_def)
  have d: "int (card ((cells A - cells B) \<inter> H)) = count A - count B"
    using card_diff_mines[OF fA assms(4)] cA cB by simp
  have fD: "finite (cells A - cells B)" using fA by simp
  { assume "count A = count B"
    then have "(cells A - cells B) \<inter> H = {}" using d fD by simp
    then show "sound H (for_each mark_safe (cells A - cells B) kb)"
      using assms(1) by (rule sound_for_each_safe[rotated]) }
  { assume "int (card (cells A - cells B)) = count A - count B"
    then have "cells A - cells B \<subseteq> H" using d all_mines[OF fD] by simp
    moreover have "cells A - cells B \<subseteq> {c. in_grid kb c}" using gA by blast
    ultimately show "sound H (for_each mark_mine (cells A - cells B) kb)"
      using assms(1) by (intro sound_for_each_mine) }
qed

lemma sound_conclusion_step:
  assumes "sound H kb" "i < length (knowledge kb)"
  shows "sound H (conclusion_step i kb)"
proof -
  define s where "s = knowledge kb ! i"
  define t where "t = last (knowledge kb)"
  have s: "s \<in> set (knowledge kb)" using assms(2) by (simp add: s_def)
  have t: "t \<in> set (knowledge kb)" using assms(2) unfolding t_def by (intro last_in_set) auto
  have c: "conclusion_step i kb =
     (if s = t then kb
      else if cells t \<subseteq> cells s then
        (if count s = count t then for_each mark_safe (cells s - cells t) kb
         else if int (card (cells s - cells t)) = count s - count t
         then for_each mark_mine (cells s - cells t) kb else kb)
      else if cells s \<subseteq> cells t then
        (if count s = count t then for_each mark_safe (cells t - cells s) kb
         else if int (card (cells t - cells s)) = count t - count s
         then for_each mark_mine (cells t - cells s) kb else kb)
      else kb)"
    by (simp add: conclusion_step_def Let_def s_def t_def)
  show ?thesis
  proof (cases "cells t \<subseteq> cells s")
    case True
    note r = sound_resolve[OF assms(1) s t True]
    show ?thesis unfolding c using r assms(1) True by simp
  next
    case False
    show ?thesis
    proof (cases "cells s \<subseteq> cells t")
      case True
      note r = sound_resolve[OF assms(1) t s True]
      have "count s = count t \<Longrightarrow> sound H (for_each mark_safe (cells t - cells s) kb)"
        using r(1) by simp
      then show ?thesis unfolding c using r(2) assms(1) False True by simp
    next
      case n: False
      show ?thesis unfolding c using False n assms(1) by simp
    qed
  qed
qed

lemma length_conclusion_step [simp]:
  "length (knowledge (conclusion_step i kb)) = length (knowledge kb)"
  by (simp add: conclusion_step_def Let_def)

lemma sound_fold_conclusion_step:
  "sound H kb \<Longrightarrow> \<forall>i \<in> set is. i < length (knowledge kb)
   \<Longrightarrow> sound H (fold conclusion_step is kb)"
  by (induction "is" arbitrary: kb) (simp_all add: sound_conclusion_step)

lemma sound_conclusion: "sound H kb \<Longrightarrow> sound H (conclusion kb)"
  unfolding conclusion_def by (rule sound_fold_conclusion_step) simp_all

lemma sound_drop:
  "sound H kb \<Longrightarrow> set ks \<subseteq> set (knowledge kb) \<Longrightarrow> sound H (kb\<lparr>knowledge := ks\<rparr>)"
proof -
  have g: "in_grid (kb\<lparr>knowledge := ks\<rparr>) = in_grid kb" by (rule in_grid_cong) simp_all
  show "sound H kb \<Longrightarrow> set ks \<subseteq> set (knowledge kb) \<Longrightarrow> sound H (kb\<lparr>knowledge := ks\<rparr>)"
    unfolding sound_def g by auto
qed

lemma sound_remove_duplicates: "sound H kb \<Longrightarrow> sound H (remove_duplicates kb)"
  unfolding remove_duplicates_def by (rule sound_drop) (simp_all add: set_unique_knowledge)

lemma truthy_known_mines:
  "truthy (known_mines s) \<Longrightarrow> iter (known_mines s) = cells s \<and> int (card (cells s)) = count s"
  by (auto simp: truthy_def known_mines_def iter_def split: if_splits)

lemma truthy_known_safes:
  "truthy (known_safes s) \<Longrightarrow> iter (known_safes s) = cells s \<and> count s = 0"
  by (auto simp: truthy_def known_safes_def iter_def split: if_splits)

lemma sound_remove_sures_step:
  assumes "sound H kb" "i < length (knowledge kb)"
  shows "sound H (fst (remove_sures_step i (kb, f)))"
proof -
  define s where "s = knowledge kb ! i"
  have s: "s \<in> set (knowledge kb)" using assms(2) by (simp add: s_def)
  then have fs: "finite (cells s)" and cs: "count s = int (card (cells s \<inter> H))"
    and gs: "cells s \<subseteq> {c. in_grid kb c}"
    using assms(1) by (auto simp: sound_def)
  show ?thesis
  proof (cases "truthy (known_mines s)")
    case True
    note k = truthy_known_mines[OF True]
    have "cells s \<subseteq> H" using k cs all_mines[OF fs] by simp
    then have "sound H (for_each mark_mine (cells s) kb)"
      using assms(1) gs by (intro sound_for_each_mine)
    then show ?thesis using True k by (simp add: remove_sures_step_def Let_def s_def[symmetric])
  next
    case False
    show ?thesis
    proof (cases "truthy (known_safes s)")
      case True
      note k = truthy_known_safes[OF True]
      have "cells s \<inter> H = {}" using k cs fs by simp
      then have "sound H (for_each mark_safe (cells s) kb)"
        using assms(1) by (intro sound_for_each_safe)
      then show ?thesis using True False k
        by (simp add: remove_sures_step_def Let_def s_def[symmetric])
    next
      case n: False
      then show ?thesis using False assms(1)
        by (simp add: remove_sures_step_def Let_def s_def[symmetric])
    qed
  qed
qed

lemma sound_fold_remove_sures_step:
  "sound H kb \<Longrightarrow> \<forall>i \<in> set is. i < length (knowledge kb)
   \<Longrightarrow> sound H (fst (fold remove_sures_step is (kb, f)))"
proof (induction "is" arbitrary: kb f)
  case Nil
  then show ?case by simp
next
  case (Cons i "is")
  obtain kb1 f1 where s: "remove_sures_step i (kb, f) = (kb1, f1)"
    by (cases "remove_sures_step i (kb, f)")
  have "sound H kb1" using sound_remove_sures_step[of H kb i f] Cons.prems s by simp
  moreover have "length (knowledge kb1) = length (knowledge kb)"
    using remove_sures_step_props(1)[OF s] .
  ultimately show ?case using Cons.IH[of kb1 f1] Cons.prems(2) s by simp
qed

lemma sound_remove_sures: assumes "sound H kb" shows "sound H (remove_sures kb)"
proof -
  obtain kb' f' where l: "remove_sures_loop kb = (kb', f')" by (cases "remove_sures_loop kb")
  then have fo: "fold remove_sures_step [0 ..< length (knowledge kb)] (kb, []) = (kb', f')"
    by (simp add: remove_sures_loop_def)
  note p = remove_sures_fold_props[OF fo, of kb]
  have "sound H kb'"
    using sound_fold_remove_sures_step[OF assms, of "[0 ..< length (knowledge kb)]" "[]"] fo
    by simp
  moreover have "set (map (\<lambda>i. knowledge kb' ! i) f') \<subseteq> set (knowledge kb')"
    using p by auto
  ultimately have "sound H (kb'\<lparr>knowledge := map (\<lambda>i. knowledge kb' ! i) f'\<rparr>)"
    by (rule sound_drop)
  then show ?thesis by (simp add: remove_sures_def l)
qed

lemma nearby_mines_card:
  "nearby_mines H h w cell
   = int (card {n. adjacent cell n \<and> 0 \<le> fst n \<and> fst n < h \<and> 0 \<le> snd n \<and> snd n < w \<and> n \<in> H})"
proof -
  let ?P = "\<lambda>ij. ij \<noteq> cell \<and> 0 \<le> fst ij \<and> fst ij < h \<and> 0 \<le> snd ij \<and> snd ij < w \<and> ij \<in> H"
  have f: "fold (\<lambda>ij cnt. if ij = cell then cnt
             else if 0 \<le> fst ij \<and> fst ij < h \<and> 0 \<le> snd ij \<and> snd ij < w
             then (if ij \<in> H then cnt + 1 else cnt) else cnt) xs n
           = n + int (length (filter ?P xs))" for xs n
    by (induction xs arbitrary: n) auto
  have "set (filter ?P (block cell))
        = {n. adjacent cell n \<and> 0 \<le> fst n \<and> fst n < h \<and> 0 \<le> snd n \<and> snd n < w \<and> n \<in> H}"
    by (auto simp: set_block adjacent_def)
  moreover have "length (filter ?P (block cell)) = card (set (filter ?P (block cell)))"
    by (rule distinct_card[symmetric]) (simp add: distinct_block)
  ultimately show ?thesis by (simp add: nearby_mines_def f)
qed

lemma sound_with_sentence:
  assumes "sound H kb" "cell \<notin> H" "cnt = nearby_mines H (height kb) (width kb) cell"
  shows "sound H (with_sentence kb cell cnt)"
proof -
  define N where "N = {n. adjacent cell n \<and> in_grid kb n}"
  have "N \<subseteq> set (block cell)" by (auto simp: N_def set_block adjacent_def)
  then have fN: "finite N" by (rule finite_subset) simp
  have mH: "mines kb \<subseteq> H" and mg: "mines kb \<subseteq> {c. in_grid kb c}" and sH: "safes kb \<inter> H = {}"
    using assms(1) by (auto simp: sound_def)
  have cm: "cell \<notin> mines kb" using mH assms(2) by blast
  have cnt: "cnt = int (card (N \<inter> H))"
    unfolding assms(3) nearby_mines_card N_def in_grid_def
    by (rule arg_cong[where f = "\<lambda>S. int (card S)"]) auto
  have b: "{n \<in> set (block cell). n \<in> mines kb} = N \<inter> mines kb"
    using cm mg by (auto simp: set_block adjacent_def N_def)
  have c: "cells (new_sentence (probe kb cell) cell cnt) = N - insert cell (safes kb) - mines kb"
    by (auto simp: new_sentence_cells N_def)
  have "(N - insert cell (safes kb) - mines kb) \<inter> H = (N \<inter> H) - (N \<inter> mines kb)"
    using sH assms(2) by blast
  moreover have sub: "N \<inter> mines kb \<subseteq> N \<inter> H" using mH by blast
  moreover have "card (N \<inter> mines kb) \<le> card (N \<inter> H)"
    using sub fN by (intro card_mono) simp_all
  moreover have "card (N \<inter> H - N \<inter> mines kb) = card (N \<inter> H) - card (N \<inter> mines kb)"
    using sub fN by (intro card_Diff_subset) (simp_all add: finite_subset)
  ultimately have k: "int (card ((N - insert cell (safes kb) - mines kb) \<inter> H))
                      = int (card (N \<inter> H)) - int (card (N \<inter> mines kb))"
    by simp
  have new: "finite (cells (new_sentence (probe kb cell) cell cnt))
       \<and> cells (new_sentence (probe kb cell) cell cnt) \<subseteq> {c. in_grid kb c}
       \<and> count (new_sentence (probe kb cell) cell cnt)
           = int (card (cells (new_sentence (probe kb cell) cell cnt) \<inter> H))"
    unfolding c using fN k by (auto simp: new_sentence_count b cnt N_def)
  have e: "(A - {cell}) \<inter> H = A \<inter> H" for A using assms(2) by blast
  show ?thesis
    using assms(1,2) new unfolding sound_def in_grid_with_sentence
    by (auto simp: e)
qed

lemma sound_add_knowledge:
  assumes "sound H kb" "cell \<notin> H" "cnt = nearby_mines H (height kb) (width kb) cell"
  shows "sound H (add_knowledge kb cell cnt)"
  unfolding add_knowledge_alt
  by (intro sound_remove_sures sound_remove_duplicates sound_conclusion sound_with_sentence assms)

lemma sound_updates:
  "sound H kb \<Longrightarrow> \<forall>p \<in> set ps. fst p \<notin> H \<and> snd p = nearby_mines H (height kb) (width kb) (fst p)
   \<Longrightarrow> sound H (updates kb ps)"
proof (induction ps arbitrary: kb)
  case Nil
  then show ?case by (simp add: updates_def)
next
  case (Cons p ps)
  have "sound H (add_knowledge kb (fst p) (snd p))"
    using Cons.prems by (intro sound_add_knowledge) simp_all
  then have "sound H (updates (add_knowledge kb (fst p) (snd p)) ps)"
    using Cons.prems(2) by (intro Cons.IH) simp_all
  then show ?case by (simp add: updates_def)
qed

lemma sound_init: "sound H (init h w)"
  by (simp add: sound_def init_def)

section \<open>Sentence queries and reductions\<close>

text \<open>
  C5. \<open>known_mines\<close> returns the cells exactly when the count equals the number of
  cells and \<open>None\<close> otherwise; \<open>known_safes\<close> returns the cells exactly when the
  count is 0 and \<open>None\<close> otherwise; the sentence with no cells and count 0 gives the
  empty set from both.
\<close>

theorem known_mines_known_safes_exact:
  "(known_mines s = Some (cells s)) = (count s = int (card (cells s)))
   \<and> (known_mines s = None) = (count s \<noteq> int (card (cells s)))
   \<and> (known_safes s = Some (cells s)) = (count s = 0)
   \<and> (known_safes s = None) = (count s \<noteq> 0)
   \<and> known_mines \<lparr>cells = {}, count = 0\<rparr> = Some {}
   \<and> known_safes \<lparr>cells = {}, count = 0\<rparr> = Some {}"
  by (auto simp: known_mines_def known_safes_def)

text \<open>
  C6. \<open>Sentence.mark_mine\<close> on a cell of the sentence removes that cell and no other
  and lowers the count by exactly 1; on a cell outside the sentence it changes nothing.
\<close>

theorem Sentence_mark_mine_effect:
  "(c \<in> cells s \<longrightarrow>
      c \<notin> cells (Sentence_mark_mine s c)
      \<and> count (Sentence_mark_mine s c) = count s - 1
      \<and> cells (Sentence_mark_mine s c) = cells s - {c})
   \<and> (c \<notin> cells s \<longrightarrow> Sentence_mark_mine s c = s)"
  by (cases s) (auto simp: Sentence_mark_mine_def)

theorem Sentence_mark_mine_effect_witness:
  "(0, 1) \<in> cells \<lparr>cells = {(0, 0), (0, 1)}, count = 1\<rparr>
   \<and> Sentence_mark_mine \<lparr>cells = {(0, 0), (0, 1)}, count = 1\<rparr> (0, 1)
       = \<lparr>cells = {(0, 0)}, count = 0\<rparr>
   \<and> (2, 2) \<notin> cells \<lparr>cells = {(0, 0), (0, 1)}, count = 1\<rparr>
   \<and> Sentence_mark_mine \<lparr>cells = {(0, 0), (0, 1)}, count = 1\<rparr> (2, 2)
       = \<lparr>cells = {(0, 0), (0, 1)}, count = 1\<rparr>"
proof -
  have a: "Sentence_mark_mine \<lparr>cells = {(0, 0), (0, 1)}, count = 1\<rparr> (0, 1)
           = \<lparr>cells = {(0, 0)}, count = 0\<rparr>"
    by code_simp
  show ?thesis
    using Sentence_mark_mine_effect [of "(0, 1)" "\<lparr>cells = {(0, 0), (0, 1)}, count = 1\<rparr>"]
      Sentence_mark_mine_effect [of "(2, 2)" "\<lparr>cells = {(0, 0), (0, 1)}, count = 1\<rparr>"]
    by (simp add: a)
qed

section \<open>The sentence built by an update\<close>

text \<open>
  C4, as amended. The sentence that \<open>add_knowledge\<close> appends has as its cells exactly
  the neighbours of the cell on the grid that were neither safe nor mines when the
  call was made. Its count is the supplied count less the number of positions of the
  3 by 3 block around the cell, the cell itself and positions off the grid included,
  that are marked as mines; that is the number of neighbours on the grid marked as
  mines whenever the cell itself is not marked as a mine and every marked mine is on
  the grid.
\<close>

theorem new_sentence_of_update:
  "cells (new_sentence (probe kb cell) cell cnt)
     = {n. adjacent cell n \<and> in_grid kb n \<and> n \<notin> safes kb \<and> n \<notin> mines kb}
   \<and> count (new_sentence (probe kb cell) cell cnt)
     = cnt - int (card {n \<in> set (block cell). n \<in> mines kb})
   \<and> (cell \<notin> mines kb \<and> mines kb \<subseteq> {c. in_grid kb c} \<longrightarrow>
        count (new_sentence (probe kb cell) cell cnt)
        = cnt - int (card {n. adjacent cell n \<and> in_grid kb n \<and> n \<in> mines kb}))"
proof -
  have "{n \<in> set (block cell). n \<in> mines kb}
        = {n. adjacent cell n \<and> in_grid kb n \<and> n \<in> mines kb}"
    if "cell \<notin> mines kb" "mines kb \<subseteq> {c. in_grid kb c}"
    using that by (auto simp: set_block adjacent_def)
  then show ?thesis
    by (auto simp: new_sentence_cells new_sentence_count adjacent_def)
qed

theorem new_sentence_of_update_witness:
  "(0, 1) \<notin> mines (updates (init 1 3) [((0, 0), 0), ((0, 1), 1)])
   \<and> mines (updates (init 1 3) [((0, 0), 0), ((0, 1), 1)])
       \<subseteq> {c. in_grid (updates (init 1 3) [((0, 0), 0), ((0, 1), 1)]) c}
   \<and> mines (updates (init 1 3) [((0, 0), 0), ((0, 1), 1)]) = {(0, 2)}
   \<and> count (new_sentence (probe (updates (init 1 3) [((0, 0), 0), ((0, 1), 1)]) (0, 1)) (0, 1) 1)
       = 1 - int (card {n. adjacent (0, 1) n
                          \<and> in_grid (updates (init 1 3) [((0, 0), 0), ((0, 1), 1)]) n
                          \<and> n \<in> mines (updates (init 1 3) [((0, 0), 0), ((0, 1), 1)])})
   \<and> new_sentence (probe (updates (init 1 3) [((0, 0), 0), ((0, 1), 1)]) (0, 1)) (0, 1) 1
       = \<lparr>cells = {}, count = 0\<rparr>"
proof -
  have m: "mines (updates (init 1 3) [((0, 0), 0), ((0, 1), 1)]) = {(0, 2)}"
    by code_simp
  have g: "in_grid (updates (init 1 3) [((0, 0), 0), ((0, 1), 1)]) (0, 2)"
    by code_simp
  have n: "new_sentence (probe (updates (init 1 3) [((0, 0), 0), ((0, 1), 1)]) (0, 1)) (0, 1) 1
           = \<lparr>cells = {}, count = 0\<rparr>"
    by code_simp
  show ?thesis
    using new_sentence_of_update [where cell = "(0, 1)" and cnt = 1
        and kb = "updates (init 1 3) [((0, 0), 0), ((0, 1), 1)]"]
    by (simp add: m g n)
qed

text \<open>
  The claim as it was stated fails where the probed cell is itself marked as a mine:
  on the 1 by 2 grid, after \<open>(0, 0)\<close> was probed with count 1, \<open>(0, 1)\<close> is a marked
  mine; probing it with count 0 gives a sentence of count \<open>- 1\<close>, though no neighbour
  of \<open>(0, 1)\<close> is marked as a mine.
\<close>

theorem new_sentence_count_counterexample:
  "mines (updates (init 1 2) [((0, 0), 1)]) = {(0, 1)}
   \<and> {n. adjacent (0, 1) n \<and> in_grid (updates (init 1 2) [((0, 0), 1)]) n
           \<and> n \<in> mines (updates (init 1 2) [((0, 0), 1)])} = {}
   \<and> count (new_sentence (probe (updates (init 1 2) [((0, 0), 1)]) (0, 1)) (0, 1) 0) = - 1
   \<and> count (new_sentence (probe (updates (init 1 2) [((0, 0), 1)]) (0, 1)) (0, 1) 0)
       \<noteq> 0 - int (card {n. adjacent (0, 1) n \<and> in_grid (updates (init 1 2) [((0, 0), 1)]) n
                           \<and> n \<in> mines (updates (init 1 2) [((0, 0), 1)])})"
proof -
  have m: "mines (updates (init 1 2) [((0, 0), 1)]) = {(0, 1)}"
    by code_simp
  have e: "{n. adjacent (0, 1) n \<and> in_grid (updates (init 1 2) [((0, 0), 1)]) n
           \<and> n \<in> mines (updates (init 1 2) [((0, 0), 1)])} = {}"
    by (auto simp: m adjacent_def)
  have c: "count (new_sentence (probe (updates (init 1 2) [((0, 0), 1)]) (0, 1)) (0, 1) 0) = - 1"
    by code_simp
  show ?thesis unfolding e by (simp add: m c)
qed

section \<open>Monotonicity and the invariants of the sentences\<close>

text \<open>
  C7. Across any sequence of \<open>add_knowledge\<close> calls the sets \<open>mines\<close>, \<open>safes\<close> and
  \<open>moves_made\<close> only grow: what they hold after some calls they still hold after
  any further calls, and a single call loses no member.
\<close>

theorem updates_grow_monotonically:
  "mines (updates kb ps) \<subseteq> mines (updates kb (ps @ qs))
   \<and> safes (updates kb ps) \<subseteq> safes (updates kb (ps @ qs))
   \<and> moves_made (updates kb ps) \<subseteq> moves_made (updates kb (ps @ qs))
   \<and> mines kb \<subseteq> mines (add_knowledge kb cell cnt)
   \<and> safes kb \<subseteq> safes (add_knowledge kb cell cnt)
   \<and> moves_made kb \<subseteq> moves_made (add_knowledge kb cell cnt)"
  using updates_mono[of "updates kb ps" qs] add_knowledge_mono[of kb cell cnt]
  by (simp add: updates_append)

theorem updates_grow_monotonically_witness:
  "safes (updates (init 1 5) [((0, 1), 1)]) = {(0, 1)}
   \<and> safes (updates (init 1 5) [((0, 1), 1), ((0, 3), 0)]) = {(0, 1), (0, 2), (0, 3), (0, 4)}
   \<and> safes (updates (init 1 5) [((0, 1), 1)])
       \<subseteq> safes (updates (init 1 5) ([((0, 1), 1)] @ [((0, 3), 0)]))"
proof -
  have a: "safes (updates (init 1 5) [((0, 1), 1)]) = {(0, 1)}" by code_simp
  have b: "safes (updates (init 1 5) [((0, 1), 1), ((0, 3), 0)])
           = {(0, 1), (0, 2), (0, 3), (0, 4)}" by code_simp
  show ?thesis
    using updates_grow_monotonically [of "init 1 5" "[((0, 1), 1)]" "[((0, 3), 0)]" "(0, 0)" 0]
    by (simp add: a b)
qed

text \<open>
  C9. After every sequence of \<open>add_knowledge\<close> calls on a fresh knowledge base, no
  cell of a held sentence is in \<open>mines\<close> or in \<open>safes\<close>.
\<close>

theorem sentence_cells_unresolved:
  "\<forall>s \<in> set (knowledge (updates (init h w) ps)). \<forall>c \<in> cells s.
      c \<notin> mines (updates (init h w) ps) \<and> c \<notin> safes (updates (init h w) ps)"
proof -
  have "unresolved_inv (init h w)" by (simp add: unresolved_inv_def init_def)
  then have "unresolved_inv (updates (init h w) ps)" by (rule unresolved_inv_updates)
  then show ?thesis by (simp add: unresolved_inv_def)
qed

theorem sentence_cells_unresolved_witness:
  "knowledge (updates (init 1 5) [((0, 1), 1)]) = [\<lparr>cells = {(0, 0), (0, 2)}, count = 1\<rparr>]
   \<and> (0, 0) \<notin> mines (updates (init 1 5) [((0, 1), 1)])
   \<and> (0, 0) \<notin> safes (updates (init 1 5) [((0, 1), 1)])
   \<and> (0, 2) \<notin> mines (updates (init 1 5) [((0, 1), 1)])
   \<and> (0, 2) \<notin> safes (updates (init 1 5) [((0, 1), 1)])"
proof -
  have k: "knowledge (updates (init 1 5) [((0, 1), 1)])
           = [\<lparr>cells = {(0, 0), (0, 2)}, count = 1\<rparr>]"
    by code_simp
  show ?thesis
    using sentence_cells_unresolved [of 1 5 "[((0, 1), 1)]"] by (simp add: k)
qed

text \<open>
  C10. After every sequence of \<open>add_knowledge\<close> calls on a fresh knowledge base of
  dimensions \<open>h\<close> by \<open>w\<close>, every cell of a held sentence lies within the grid.
\<close>

theorem sentence_cells_in_grid:
  "\<forall>s \<in> set (knowledge (updates (init h w) ps)). \<forall>c \<in> cells s.
      0 \<le> fst c \<and> fst c < h \<and> 0 \<le> snd c \<and> snd c < w"
proof -
  have "grid_inv (init h w)" by (simp add: grid_inv_def init_def)
  then have "grid_inv (updates (init h w) ps)" by (rule grid_inv_updates)
  then show ?thesis by (simp add: grid_inv_def in_grid_def init_def)
qed

theorem sentence_cells_in_grid_witness:
  "knowledge (updates (init 3 3) [((1, 1), 1)])
     = [\<lparr>cells = {(0, 0), (0, 1), (0, 2), (1, 0), (1, 2), (2, 0), (2, 1), (2, 2)}, count = 1\<rparr>]
   \<and> (0::int) \<le> fst ((2, 2) :: cell) \<and> fst ((2, 2) :: cell) < 3
   \<and> (0::int) \<le> snd ((2, 2) :: cell) \<and> snd ((2, 2) :: cell) < 3"
proof -
  have k: "knowledge (updates (init 3 3) [((1, 1), 1)])
     = [\<lparr>cells = {(0, 0), (0, 1), (0, 2), (1, 0), (1, 2), (2, 0), (2, 1), (2, 2)}, count = 1\<rparr>]"
    by code_simp
  show ?thesis
    using sentence_cells_in_grid [of 3 3 "[((1, 1), 1)]"] by (simp add: k)
qed


section \<open>The safe move\<close>

text \<open>
  C8. \<open>make_safe_move\<close> always returns; it returns \<open>None\<close> exactly when
  \<open>safes - moves_made\<close> is empty and otherwise a cell of that set; and the state
  after the call is the state before it.
\<close>

theorem make_safe_move_spec:
  "(\<exists>r. make_safe_move kb r)
   \<and> (safes kb - moves_made kb = {} \<longrightarrow> make_safe_move kb (None, kb))
   \<and> (\<forall>r kb'. make_safe_move kb (r, kb') \<longrightarrow>
         kb' = kb
         \<and> (r = None) = (safes kb - moves_made kb = {})
         \<and> (\<forall>c. r = Some c \<longrightarrow> c \<in> safes kb - moves_made kb))"
proof (intro conjI allI impI)
  show "\<exists>r. make_safe_move kb r"
  proof (cases "safes kb - moves_made kb = {}")
    case True
    then show ?thesis by (blast intro: no_move)
  next
    case False
    then obtain c where "c \<in> safes kb - moves_made kb" by blast
    then have "set_pop (safes kb - moves_made kb) (c, safes kb - moves_made kb - {c})"
      by (rule set_pop)
    with False show ?thesis by (blast intro: move)
  qed
next
  assume "safes kb - moves_made kb = {}"
  then show "make_safe_move kb (None, kb)" by (rule no_move)
next
  fix r kb' assume m: "make_safe_move kb (r, kb')"
  then show "kb' = kb" by (cases rule: make_safe_move.cases) auto
  from m show "(r = None) = (safes kb - moves_made kb = {})"
    by (cases rule: make_safe_move.cases) auto
  fix c assume "r = Some c"
  with m show "c \<in> safes kb - moves_made kb"
    by (cases rule: make_safe_move.cases) (auto elim: set_pop.cases)
qed

theorem make_safe_move_spec_witness:
  "safes (init 1 3) - moves_made (init 1 3) = {}
   \<and> make_safe_move (init 1 3) (None, init 1 3)
   \<and> safes (updates (init 1 3) [((0, 0), 0)]) - moves_made (updates (init 1 3) [((0, 0), 0)])
       = {(0, 1)}
   \<and> make_safe_move (updates (init 1 3) [((0, 0), 0)])
        (Some (0, 1), updates (init 1 3) [((0, 0), 0)])
   \<and> \<not> make_safe_move (updates (init 1 3) [((0, 0), 0)])
        (None, updates (init 1 3) [((0, 0), 0)])"
proof -
  have e: "safes (init 1 3) - moves_made (init 1 3) = {}" by (simp add: init_def)
  have d: "safes (updates (init 1 3) [((0, 0), 0)]) - moves_made (updates (init 1 3) [((0, 0), 0)])
           = {(0, 1)}"
    by code_simp
  have p: "set_pop (safes (updates (init 1 3) [((0, 0), 0)])
                    - moves_made (updates (init 1 3) [((0, 0), 0)])) ((0, 1), {(0, 1)} - {(0, 1)})"
    unfolding d by (rule set_pop) simp
  have s: "make_safe_move (updates (init 1 3) [((0, 0), 0)])
        (Some (0, 1), updates (init 1 3) [((0, 0), 0)])"
    by (rule move[OF _ p]) (simp add: d)
  show ?thesis
    using make_safe_move_spec [of "init 1 3"]
      make_safe_move_spec [of "updates (init 1 3) [((0, 0), 0)]"] e d s
    by auto
qed

section \<open>Mines and safe cells stay apart\<close>

text \<open>
  C3, as amended. For every sequence of \<open>add_knowledge\<close> calls on a fresh knowledge
  base in which every probed cell is free of a mine of a fixed placement \<open>H\<close> and every
  supplied count is the count \<open>nearby_mines\<close> reports for \<open>H\<close>, no cell is both in
  \<open>mines\<close> and in \<open>safes\<close> afterwards (so after every call of the sequence, each
  prefix being such a sequence).
\<close>

theorem truthful_updates_disjoint:
  assumes "\<forall>p \<in> set ps. fst p \<notin> H \<and> snd p = nearby_mines H h w (fst p)"
  shows "mines (updates (init h w) ps) \<inter> safes (updates (init h w) ps) = {}"
proof -
  have "sound H (updates (init h w) ps)"
    using assms by (intro sound_updates sound_init) (simp add: init_def)
  then show ?thesis by (auto simp: sound_def)
qed

theorem truthful_updates_disjoint_witness:
  "(0, 0) \<notin> {(0, 2) :: cell} \<and> nearby_mines {(0, 2)} 1 3 (0, 0) = 0
   \<and> (0, 1) \<notin> {(0, 2) :: cell} \<and> nearby_mines {(0, 2)} 1 3 (0, 1) = 1
   \<and> mines (updates (init 1 3) [((0, 0), 0), ((0, 1), 1)]) = {(0, 2)}
   \<and> mines (updates (init 1 3) [((0, 0), 0), ((0, 1), 1)])
       \<inter> safes (updates (init 1 3) [((0, 0), 0), ((0, 1), 1)]) = {}"
proof -
  have a: "nearby_mines {(0, 2)} 1 3 (0, 0) = 0" by code_simp
  have b: "nearby_mines {(0, 2)} 1 3 (0, 1) = 1" by code_simp
  have m: "mines (updates (init 1 3) [((0, 0), 0), ((0, 1), 1)]) = {(0, 2)}" by code_simp
  show ?thesis
    using truthful_updates_disjoint [of "[((0, 0), 0), ((0, 1), 1)]" "{(0, 2)}" 1 3] a b
    by (simp add: m)
qed

text \<open>
  Truthful counts alone do not give it: \<open>add_knowledge\<close> marks the probed cell safe,
  whatever it holds. On the 1 by 2 grid with a mine at \<open>(0, 1)\<close>, probing \<open>(0, 0)\<close> with
  its count 1 marks \<open>(0, 1)\<close> as a mine, and probing \<open>(0, 1)\<close> with its count 0 then
  marks it safe as well.
\<close>

theorem probed_mine_counterexample:
  "nearby_mines {(0, 1)} 1 2 (0, 0) = 1
   \<and> nearby_mines {(0, 1)} 1 2 (0, 1) = 0
   \<and> (0, 1) \<in> mines (updates (init 1 2) [((0, 0), 1), ((0, 1), 0)])
   \<and> (0, 1) \<in> safes (updates (init 1 2) [((0, 0), 1), ((0, 1), 0)])
   \<and> mines (updates (init 1 2) [((0, 0), 1), ((0, 1), 0)])
       \<inter> safes (updates (init 1 2) [((0, 0), 1), ((0, 1), 0)]) \<noteq> {}"
proof -
  have a: "nearby_mines {(0, 1)} 1 2 (0, 0) = 1" by code_simp
  have b: "nearby_mines {(0, 1)} 1 2 (0, 1) = 0" by code_simp
  have m: "(0, 1) \<in> mines (updates (init 1 2) [((0, 0), 1), ((0, 1), 0)])" by code_simp
  have s: "(0, 1) \<in> safes (updates (init 1 2) [((0, 0), 1), ((0, 1), 0)])" by code_simp
  show ?thesis using a b m s by blast
qed

section \<open>A known mine left held\<close>

text \<open>
  C2. The claim is that no sentence of which \<open>known_mines\<close> or \<open>known_safes\<close> gives
  a result is held when \<open>add_knowledge\<close> returns, as the docstring of \<open>remove_sures\<close>
  has it (``Removes all known mines and safes''). The code does not do that.
  \<open>remove_sures\<close> examines each sentence once, in list order, so a sentence that the
  marks of a later sentence reduce is not examined again. On the 1 by 5 grid with its
  only mine at \<open>(0, 0)\<close>, the safe cells \<open>(0, 1)\<close> and \<open>(0, 3)\<close> are probed with their
  true counts 1 and 0. The sweep of the second call starts on \<open>{(0, 0), (0, 2)} = 1\<close>
  and \<open>{(0, 2), (0, 4)} = 0\<close>; it passes the first, resolves the second, marking
  \<open>(0, 2)\<close> safe, and returns holding \<open>{(0, 0)} = 1\<close>, of which \<open>known_mines\<close> gives
  \<open>{(0, 0)}\<close>, with \<open>(0, 0)\<close> not marked as a mine.
\<close>

theorem known_mine_left_held:
  "(0, 1) \<notin> {(0, 0) :: cell} \<and> nearby_mines {(0, 0)} 1 5 (0, 1) = 1
   \<and> (0, 3) \<notin> {(0, 0) :: cell} \<and> nearby_mines {(0, 0)} 1 5 (0, 3) = 0
   \<and> knowledge (before_remove_sures (updates (init 1 5) [((0, 1), 1)]) (0, 3) 0)
       = [\<lparr>cells = {(0, 0), (0, 2)}, count = 1\<rparr>, \<lparr>cells = {(0, 2), (0, 4)}, count = 0\<rparr>]
   \<and> knowledge (updates (init 1 5) [((0, 1), 1), ((0, 3), 0)])
       = [\<lparr>cells = {(0, 0)}, count = 1\<rparr>]
   \<and> known_mines \<lparr>cells = {(0, 0)}, count = 1\<rparr> = Some {(0, 0)}
   \<and> truthy (known_mines \<lparr>cells = {(0, 0)}, count = 1\<rparr>)
   \<and> (0, 0) \<notin> mines (updates (init 1 5) [((0, 1), 1), ((0, 3), 0)])"
proof -
  have a: "nearby_mines {(0, 0)} 1 5 (0, 1) = 1" by code_simp
  have b: "nearby_mines {(0, 0)} 1 5 (0, 3) = 0" by code_simp
  have c: "knowledge (before_remove_sures (updates (init 1 5) [((0, 1), 1)]) (0, 3) 0)
       = [\<lparr>cells = {(0, 0), (0, 2)}, count = 1\<rparr>, \<lparr>cells = {(0, 2), (0, 4)}, count = 0\<rparr>]"
    by code_simp
  have d: "knowledge (updates (init 1 5) [((0, 1), 1), ((0, 3), 0)])
       = [\<lparr>cells = {(0, 0)}, count = 1\<rparr>]"
    by code_simp
  have e: "(0, 0) \<notin> mines (updates (init 1 5) [((0, 1), 1), ((0, 3), 0)])"
    by code_simp
  show ?thesis by (simp add: a b c d e known_mines_def truthy_def)
qed

text \<open>
  A sentence without cells is held as well, by the tests of \<open>remove_sures\<close>
  themselves: both queries return the empty set, which Python takes for false. On the
  1 by 1 grid the sentence \<open>{} = 0\<close> is held once the only cell is probed.
\<close>

lemma empty_sentence_kept:
  "knowledge (add_knowledge (init 1 1) (0, 0) 0) = [\<lparr>cells = {}, count = 0\<rparr>]
   \<and> known_mines \<lparr>cells = {}, count = 0\<rparr> = Some {}
   \<and> known_safes \<lparr>cells = {}, count = 0\<rparr> = Some {}
   \<and> \<not> truthy (known_mines \<lparr>cells = {}, count = 0\<rparr>)
   \<and> \<not> truthy (known_safes \<lparr>cells = {}, count = 0\<rparr>)"
proof -
  have c: "knowledge (add_knowledge (init 1 1) (0, 0) 0) = [\<lparr>cells = {}, count = 0\<rparr>]"
    by code_simp
  show ?thesis by (simp add: c known_mines_def known_safes_def truthy_def)
qed

section \<open>One pass, not a fixpoint\<close>

text \<open>
  C1. The claim is that running the inference steps again on the state that
  \<open>add_knowledge\<close> returned changes nothing, as the fourth point of its docstring asks
  (``mark any additional cells as safe or as mines if it can be concluded based on
  the AI's knowledge base''). The code does not reach that state: it makes one
  pass and does not repeat it. In the same game as for C2 (1 by 5 grid, the only mine
  at \<open>(0, 0)\<close>, the safe cells \<open>(0, 1)\<close> and \<open>(0, 3)\<close> probed with their true counts),
  \<open>add_knowledge\<close> returns with no mine marked and \<open>{(0, 0)} = 1\<close> held; running
  \<open>remove_sures\<close> once more, or the whole inference pass of the specification,
  marks \<open>(0, 0)\<close> as a mine and drops the sentence.
\<close>

theorem rerun_after_update_changes_state:
  "(0, 1) \<notin> {(0, 0) :: cell} \<and> nearby_mines {(0, 0)} 1 5 (0, 1) = 1
   \<and> (0, 3) \<notin> {(0, 0) :: cell} \<and> nearby_mines {(0, 0)} 1 5 (0, 3) = 0
   \<and> mines (updates (init 1 5) [((0, 1), 1), ((0, 3), 0)]) = {}
   \<and> knowledge (updates (init 1 5) [((0, 1), 1), ((0, 3), 0)])
       = [\<lparr>cells = {(0, 0)}, count = 1\<rparr>]
   \<and> mines (remove_sures (updates (init 1 5) [((0, 1), 1), ((0, 3), 0)])) = {(0, 0)}
   \<and> knowledge (remove_sures (updates (init 1 5) [((0, 1), 1), ((0, 3), 0)])) = []
   \<and> mines (spec_inference_pass (updates (init 1 5) [((0, 1), 1), ((0, 3), 0)])) = {(0, 0)}
   \<and> knowledge (spec_inference_pass (updates (init 1 5) [((0, 1), 1), ((0, 3), 0)])) = []
   \<and> spec_inference_pass (updates (init 1 5) [((0, 1), 1), ((0, 3), 0)])
       \<noteq> updates (init 1 5) [((0, 1), 1), ((0, 3), 0)]"
proof -
  have n1: "nearby_mines {(0, 0)} 1 5 (0, 1) = 1" by code_simp
  have n2: "nearby_mines {(0, 0)} 1 5 (0, 3) = 0" by code_simp
  have a: "mines (updates (init 1 5) [((0, 1), 1), ((0, 3), 0)]) = {}"
    by code_simp
  have b: "knowledge (updates (init 1 5) [((0, 1), 1), ((0, 3), 0)])
       = [\<lparr>cells = {(0, 0)}, count = 1\<rparr>]"
    by code_simp
  have c: "mines (remove_sures (updates (init 1 5) [((0, 1), 1), ((0, 3), 0)])) = {(0, 0)}"
    by code_simp
  have d: "knowledge (remove_sures (updates (init 1 5) [((0, 1), 1), ((0, 3), 0)])) = []"
    by code_simp
  have e: "mines (spec_inference_pass (updates (init 1 5) [((0, 1), 1), ((0, 3), 0)]))
           = {(0, 0)}"
    by code_simp
  have f: "knowledge (spec_inference_pass (updates (init 1 5) [((0, 1), 1), ((0, 3), 0)])) = []"
    by code_simp
  have "spec_inference_pass (updates (init 1 5) [((0, 1), 1), ((0, 3), 0)])
       \<noteq> updates (init 1 5) [((0, 1), 1), ((0, 3), 0)]"
    using a e by (metis insert_not_empty)
  then show ?thesis by (simp add: n1 n2 a b c d e f)
qed

end
